theory Spec2Isabelle
  imports Complex_Main
begin

section \<open>Data model\<close>

text \<open>
  A move is a (row, column) pair of Python ints; \<open>(-1, -1)\<close> is the value the agent
  returns when there is nothing to play.
\<close>

type_synonym move = "int \<times> int"

definition no_move :: move where
  "no_move = (-1, -1)"

text \<open>
  Scores are Python floats. The agent only compares them and takes \<open>max\<close>/\<open>min\<close>, so a
  score is modelled as a real number extended by the two infinities \<open>float("-inf")\<close> and
  \<open>float("inf")\<close>, ordered as IEEE floats are. NaN is not a value of the model.
\<close>

datatype pyfloat = NegInf | Fin real | PosInf

instantiation pyfloat :: linorder
begin

fun less_eq_pyfloat :: "pyfloat \<Rightarrow> pyfloat \<Rightarrow> bool" where
  "less_eq_pyfloat NegInf y = True"
| "less_eq_pyfloat (Fin a) NegInf = False"
| "less_eq_pyfloat (Fin a) (Fin b) = (a \<le> b)"
| "less_eq_pyfloat (Fin a) PosInf = True"
| "less_eq_pyfloat PosInf PosInf = True"
| "less_eq_pyfloat PosInf y = False"

definition less_pyfloat :: "pyfloat \<Rightarrow> pyfloat \<Rightarrow> bool" where
  "less_pyfloat x y = (x \<le> y \<and> \<not> y \<le> x)"

instance
proof
  fix x y z :: pyfloat
  show "(x < y) = (x \<le> y \<and> \<not> y \<le> x)"
    by (simp add: less_pyfloat_def)
  show "x \<le> x"
    by (cases x) simp_all
  show "x \<le> y \<Longrightarrow> y \<le> z \<Longrightarrow> x \<le> z"
    by (cases x; cases y; cases z) simp_all
  show "x \<le> y \<Longrightarrow> y \<le> x \<Longrightarrow> x = y"
    by (cases x; cases y) simp_all
  show "x \<le> y \<or> y \<le> x"
    by (cases x; cases y) auto
qed

end

text \<open>
  The board class (\<open>isolation.Board\<close>) is imported by the callers of the agent and is not
  part of the agent's file. The agent uses it only through the methods and attributes
  below, so the board is a parameter of the model: a record of these operations over a
  type \<open>'g\<close> of positions and a type \<open>'p\<close> of players. \<open>game.get_legal_moves()\<close> without an
  argument is the list for the active player.
\<close>

record ('g, 'p) board =
  get_legal_moves :: "'g \<Rightarrow> 'p \<Rightarrow> move list"
  forecast_move :: "'g \<Rightarrow> move \<Rightarrow> 'g"
  is_loser :: "'g \<Rightarrow> 'p \<Rightarrow> bool"
  is_winner :: "'g \<Rightarrow> 'p \<Rightarrow> bool"
  get_opponent :: "'g \<Rightarrow> 'p \<Rightarrow> 'p"
  active_player :: "'g \<Rightarrow> 'p"
  inactive_player :: "'g \<Rightarrow> 'p"
  width :: "'g \<Rightarrow> int"
  height :: "'g \<Rightarrow> int"
  move_count :: "'g \<Rightarrow> int"

text \<open>The exception class of the agent.\<close>

datatype error = Timeout

text \<open>
  The attributes of a \<open>CustomPlayer\<close>. \<open>time_left\<close> is a callable that reports the remaining
  milliseconds; it is modelled by the sequence of the values it returns, \<open>time_left self k\<close>
  being the value of its \<open>k\<close>-th call (counted from 0). The number of calls made so far is
  the state that the search functions pass along. \<open>search_depth\<close> is documented as a
  strictly positive integer; depths are natural numbers in the model. The attribute
  \<open>self.method\<close> is the field \<open>method_name\<close>.
\<close>

record ('g, 'p) CustomPlayer =
  search_depth :: nat
  iterative :: bool
  score :: "'g \<Rightarrow> 'p \<Rightarrow> pyfloat"
  method_name :: string
  time_left :: "nat \<Rightarrow> real"
  TIMER_THRESHOLD :: real

section \<open>The evaluation function\<close>

definition custom_score :: "('g, 'p) board \<Rightarrow> 'g \<Rightarrow> 'p \<Rightarrow> pyfloat" where
  "custom_score B game player =
     (if is_loser B game player then NegInf
      else if is_winner B game player then PosInf
      else
        let numberOfMyMoves = get_legal_moves B game player;
            numberOfOpponentMoves = get_legal_moves B game (get_opponent B game player)
        in Fin (real_of_int (int (length numberOfMyMoves) - int (length numberOfOpponentMoves))))"

section \<open>The search cores\<close>

text \<open>
  Both cores return either the exception \<open>Timeout\<close> or a pair (score, move), together
  with the number of calls made to the time probe so far. An exception raised in a
  recursive call is not caught by the cores, so it ends the loop over the moves.

  The loop \<open>for move in legal_moves\<close> of \<open>minimax\<close>; \<open>child move\<close> is the recursive call on
  the position after \<open>move\<close>.
\<close>

fun minimax_loop ::
  "(move \<Rightarrow> nat \<Rightarrow> (error + pyfloat \<times> move) \<times> nat) \<Rightarrow> bool \<Rightarrow> move list \<Rightarrow>
   pyfloat \<Rightarrow> move \<Rightarrow> nat \<Rightarrow> (error + pyfloat \<times> move) \<times> nat" where
  "minimax_loop child maximizing_player [] highest_score next_move n =
     (Inr (highest_score, next_move), n)"
| "minimax_loop child maximizing_player (move # rest) highest_score next_move n =
     (case child move n of
        (Inl e, n') \<Rightarrow> (Inl e, n')
      | (Inr r, n') \<Rightarrow>
          (let potentialScore = fst r in
           if maximizing_player then
             (if potentialScore > highest_score
              then minimax_loop child maximizing_player rest potentialScore move n'
              else minimax_loop child maximizing_player rest highest_score next_move n')
           else
             (if potentialScore < highest_score
              then minimax_loop child maximizing_player rest potentialScore move n'
              else minimax_loop child maximizing_player rest highest_score next_move n')))"

fun minimax ::
  "('g, 'p) board \<Rightarrow> ('g, 'p) CustomPlayer \<Rightarrow> 'g \<Rightarrow> nat \<Rightarrow> bool \<Rightarrow> nat \<Rightarrow>
   (error + pyfloat \<times> move) \<times> nat" where
  "minimax B self game 0 maximizing_player n =
     (if time_left self n < TIMER_THRESHOLD self then (Inl Timeout, Suc n)
      else (Inr (score self game (if maximizing_player then active_player B game
                                  else inactive_player B game), no_move), Suc n))"
| "minimax B self game (Suc d) maximizing_player n =
     (if time_left self n < TIMER_THRESHOLD self then (Inl Timeout, Suc n)
      else minimax_loop
             (\<lambda>move k. minimax B self (forecast_move B game move) d (\<not> maximizing_player) k)
             maximizing_player
             (get_legal_moves B game (active_player B game))
             (if maximizing_player then NegInf else PosInf)
             no_move
             (Suc n))"

text \<open>
  The loop of \<open>alphabeta\<close>: as above, with the two bounds updated after each child and the
  \<open>break\<close> as soon as \<open>beta <= alpha\<close>.
\<close>

fun alphabeta_loop ::
  "(move \<Rightarrow> pyfloat \<Rightarrow> pyfloat \<Rightarrow> nat \<Rightarrow> (error + pyfloat \<times> move) \<times> nat) \<Rightarrow> bool \<Rightarrow>
   move list \<Rightarrow> pyfloat \<Rightarrow> move \<Rightarrow> pyfloat \<Rightarrow> pyfloat \<Rightarrow> nat \<Rightarrow>
   (error + pyfloat \<times> move) \<times> nat" where
  "alphabeta_loop child maximizing_player [] highest_score next_move alpha beta n =
     (Inr (highest_score, next_move), n)"
| "alphabeta_loop child maximizing_player (move # rest) highest_score next_move alpha beta n =
     (case child move alpha beta n of
        (Inl e, n') \<Rightarrow> (Inl e, n')
      | (Inr r, n') \<Rightarrow>
          (let potentialScore = fst r in
           if maximizing_player then
             (let (highest_score', next_move') =
                    (if potentialScore > highest_score then (potentialScore, move)
                     else (highest_score, next_move));
                  alpha' = max alpha highest_score'
              in if beta \<le> alpha' then (Inr (highest_score', next_move'), n')
                 else alphabeta_loop child maximizing_player rest
                        highest_score' next_move' alpha' beta n')
           else
             (let (highest_score', next_move') =
                    (if potentialScore < highest_score then (potentialScore, move)
                     else (highest_score, next_move));
                  beta' = min beta highest_score'
              in if beta' \<le> alpha then (Inr (highest_score', next_move'), n')
                 else alphabeta_loop child maximizing_player rest
                        highest_score' next_move' alpha beta' n')))"

fun alphabeta ::
  "('g, 'p) board \<Rightarrow> ('g, 'p) CustomPlayer \<Rightarrow> 'g \<Rightarrow> nat \<Rightarrow> pyfloat \<Rightarrow> pyfloat \<Rightarrow> bool \<Rightarrow>
   nat \<Rightarrow> (error + pyfloat \<times> move) \<times> nat" where
  "alphabeta B self game 0 alpha beta maximizing_player n =
     (if time_left self n < TIMER_THRESHOLD self then (Inl Timeout, Suc n)
      else (Inr (score self game (if maximizing_player then active_player B game
                                  else inactive_player B game), no_move), Suc n))"
| "alphabeta B self game (Suc d) alpha beta maximizing_player n =
     (if time_left self n < TIMER_THRESHOLD self then (Inl Timeout, Suc n)
      else alphabeta_loop
             (\<lambda>move a b k.
                alphabeta B self (forecast_move B game move) d a b (\<not> maximizing_player) k)
             maximizing_player
             (get_legal_moves B game (active_player B game))
             (if maximizing_player then NegInf else PosInf)
             no_move alpha beta
             (Suc n))"

section \<open>The driver\<close>

text \<open>
  \<open>range(1, game.move_count + game.width * game.height - 1)\<close> when iterative deepening is
  on, the single configured depth otherwise.
\<close>

definition iteration_candidate :: "('g, 'p) board \<Rightarrow> ('g, 'p) CustomPlayer \<Rightarrow> 'g \<Rightarrow> nat list" where
  "iteration_candidate B self game =
     (if iterative self
      then map nat [1 .. move_count B game + width B game * height B game - 1 - 1]
      else [search_depth self])"

text \<open>The call of the selected core with its default arguments.\<close>

definition search ::
  "('g, 'p) board \<Rightarrow> ('g, 'p) CustomPlayer \<Rightarrow> 'g \<Rightarrow> nat \<Rightarrow> nat \<Rightarrow> (error + pyfloat \<times> move) \<times> nat" where
  "search B self game depth n =
     (if method_name self = ''alphabeta'' then alphabeta B self game depth NegInf PosInf True n
      else minimax B self game depth True n)"

text \<open>
  The loop \<open>for depth in iteration_candidate\<close> inside the \<open>try\<close> block, with the handler
  \<open>except Timeout: pass\<close>. Besides the move and the number of probe calls the model
  returns the list of the depths at which the core was called, in order of the calls;
  the program keeps no such list, it is there for the statements about which searches
  are run.
\<close>

fun deepen ::
  "('g, 'p) board \<Rightarrow> ('g, 'p) CustomPlayer \<Rightarrow> 'g \<Rightarrow> nat list \<Rightarrow> move \<Rightarrow> nat \<Rightarrow> nat list \<Rightarrow>
   move \<times> nat \<times> nat list" where
  "deepen B self game [] next_move n calls = (next_move, n, calls)"
| "deepen B self game (depth # rest) next_move n calls =
     (case search B self game depth n of
        (Inl Timeout, n') \<Rightarrow> (next_move, n', calls @ [depth])
      | (Inr (score_v, move), n') \<Rightarrow>
          if score_v = PosInf then (next_move, n', calls @ [depth])
          else deepen B self game rest (if score_v \<noteq> NegInf then move else next_move) n'
                 (calls @ [depth]))"

definition get_move ::
  "('g, 'p) board \<Rightarrow> ('g, 'p) CustomPlayer \<Rightarrow> 'g \<Rightarrow> move list \<Rightarrow> (nat \<Rightarrow> real) \<Rightarrow> nat \<Rightarrow>
   move \<times> nat \<times> nat list" where
  "get_move B self game legal_moves time_left_probe n =
     (let self' = self\<lparr>time_left := time_left_probe\<rparr> in
      case legal_moves of
        [] \<Rightarrow> (no_move, n, [])
      | first_move # _ \<Rightarrow>
          deepen B self' game (iteration_candidate B self' game) first_move n [])"

text \<open>
  A run of the loop in which every search returns and none returns \<open>float("+inf")\<close>: the
  move recorded at its end and the number of probe calls made. \<open>None\<close> when a search of
  the list aborts or ends the loop with \<open>break\<close>.
\<close>

fun completed ::
  "('g, 'p) board \<Rightarrow> ('g, 'p) CustomPlayer \<Rightarrow> 'g \<Rightarrow> nat list \<Rightarrow> move \<Rightarrow> nat \<Rightarrow>
   (move \<times> nat) option" where
  "completed B self game [] next_move n = Some (next_move, n)"
| "completed B self game (depth # rest) next_move n =
     (case search B self game depth n of
        (Inl e, n') \<Rightarrow> None
      | (Inr (score_v, move), n') \<Rightarrow>
          if score_v = PosInf then None
          else completed B self game rest (if score_v \<noteq> NegInf then move else next_move) n')"

section \<open>The cores without the time check\<close>

text \<open>
  What the two cores compute when no call aborts: the same recursions with the reading
  of the probe left out. They are used to compare the two searches; the statements about
  the program are made on \<open>minimax\<close> and \<open>alphabeta\<close> themselves.
\<close>

fun minimax_result_loop ::
  "(move \<Rightarrow> pyfloat) \<Rightarrow> bool \<Rightarrow> move list \<Rightarrow> pyfloat \<Rightarrow> move \<Rightarrow> pyfloat \<times> move" where
  "minimax_result_loop child maximizing_player [] highest_score next_move =
     (highest_score, next_move)"
| "minimax_result_loop child maximizing_player (move # rest) highest_score next_move =
     (let potentialScore = child move in
      if maximizing_player then
        (if potentialScore > highest_score
         then minimax_result_loop child maximizing_player rest potentialScore move
         else minimax_result_loop child maximizing_player rest highest_score next_move)
      else
        (if potentialScore < highest_score
         then minimax_result_loop child maximizing_player rest potentialScore move
         else minimax_result_loop child maximizing_player rest highest_score next_move))"

fun minimax_result ::
  "('g, 'p) board \<Rightarrow> ('g, 'p) CustomPlayer \<Rightarrow> 'g \<Rightarrow> nat \<Rightarrow> bool \<Rightarrow> pyfloat \<times> move" where
  "minimax_result B self game 0 maximizing_player =
     (score self game (if maximizing_player then active_player B game
                       else inactive_player B game), no_move)"
| "minimax_result B self game (Suc d) maximizing_player =
     minimax_result_loop
       (\<lambda>move. fst (minimax_result B self (forecast_move B game move) d (\<not> maximizing_player)))
       maximizing_player
       (get_legal_moves B game (active_player B game))
       (if maximizing_player then NegInf else PosInf)
       no_move"

fun alphabeta_result_loop ::
  "(move \<Rightarrow> pyfloat \<Rightarrow> pyfloat \<Rightarrow> pyfloat) \<Rightarrow> bool \<Rightarrow> move list \<Rightarrow> pyfloat \<Rightarrow> move \<Rightarrow>
   pyfloat \<Rightarrow> pyfloat \<Rightarrow> pyfloat \<times> move" where
  "alphabeta_result_loop child maximizing_player [] highest_score next_move alpha beta =
     (highest_score, next_move)"
| "alphabeta_result_loop child maximizing_player (move # rest) highest_score next_move alpha beta =
     (let potentialScore = child move alpha beta in
      if maximizing_player then
        (let (highest_score', next_move') =
               (if potentialScore > highest_score then (potentialScore, move)
                else (highest_score, next_move));
             alpha' = max alpha highest_score'
         in if beta \<le> alpha' then (highest_score', next_move')
            else alphabeta_result_loop child maximizing_player rest
                   highest_score' next_move' alpha' beta)
      else
        (let (highest_score', next_move') =
               (if potentialScore < highest_score then (potentialScore, move)
                else (highest_score, next_move));
             beta' = min beta highest_score'
         in if beta' \<le> alpha then (highest_score', next_move')
            else alphabeta_result_loop child maximizing_player rest
                   highest_score' next_move' alpha beta'))"

fun alphabeta_result ::
  "('g, 'p) board \<Rightarrow> ('g, 'p) CustomPlayer \<Rightarrow> 'g \<Rightarrow> nat \<Rightarrow> pyfloat \<Rightarrow> pyfloat \<Rightarrow> bool \<Rightarrow>
   pyfloat \<times> move" where
  "alphabeta_result B self game 0 alpha beta maximizing_player =
     (score self game (if maximizing_player then active_player B game
                       else inactive_player B game), no_move)"
| "alphabeta_result B self game (Suc d) alpha beta maximizing_player =
     alphabeta_result_loop
       (\<lambda>move a b.
          fst (alphabeta_result B self (forecast_move B game move) d a b (\<not> maximizing_player)))
       maximizing_player
       (get_legal_moves B game (active_player B game))
       (if maximizing_player then NegInf else PosInf)
       no_move alpha beta"

text \<open>
  How the score \<open>v\<close> of a search inside the window from \<open>a\<close> to \<open>b\<close> relates to the exact
  score \<open>x\<close>: at or below the window it is an upper bound, at or above it a lower bound,
  and inside the window it is exact.
\<close>

definition window :: "pyfloat \<Rightarrow> pyfloat \<Rightarrow> pyfloat \<Rightarrow> pyfloat \<Rightarrow> bool" where
  "window a b v x = ((v \<le> a \<longrightarrow> x \<le> v) \<and> (a < v \<and> v < b \<longrightarrow> v = x) \<and> (b \<le> v \<longrightarrow> v \<le> x))"

section \<open>A small explicit game\<close>

text \<open>
  Positions given as finite trees, for evaluating the definitions on concrete inputs:
  a position names the player to move, the moves the other player would have, and the
  position reached by each legal move. A player with no legal move has lost.
\<close>

datatype player = P1 | P2

datatype tpos = TPos (mover: player) (other_moves: "move list") (children: "(move \<times> tpos) list")

fun opponent :: "player \<Rightarrow> player" where
  "opponent P1 = P2"
| "opponent P2 = P1"

definition tree_board :: "int \<Rightarrow> int \<Rightarrow> int \<Rightarrow> (tpos, player) board" where
  "tree_board w h mc =
     \<lparr> get_legal_moves = (\<lambda>g p. if p = mover g then map fst (children g) else other_moves g),
       forecast_move = (\<lambda>g m. case map_of (children g) m of Some g' \<Rightarrow> g' | None \<Rightarrow> g),
       is_loser = (\<lambda>g p. p = mover g \<and> children g = []),
       is_winner = (\<lambda>g p. p \<noteq> mover g \<and> children g = []),
       get_opponent = (\<lambda>g p. opponent p),
       active_player = (\<lambda>g. mover g),
       inactive_player = (\<lambda>g. opponent (mover g)),
       width = (\<lambda>g. w),
       height = (\<lambda>g. h),
       move_count = (\<lambda>g. mc) \<rparr>"

text \<open>
  A player with the constructor's defaults but for the method, the mode and the depth;
  the evaluation function is \<open>custom_score\<close> and the margin is 10 ms.
\<close>

definition player_of ::
  "(tpos, player) board \<Rightarrow> string \<Rightarrow> bool \<Rightarrow> nat \<Rightarrow> (tpos, player) CustomPlayer" where
  "player_of B m it d =
     \<lparr> search_depth = d, iterative = it, score = custom_score B, method_name = m,
       time_left = (\<lambda>k. 0), TIMER_THRESHOLD = 10 \<rparr>"

text \<open>Some positions: one where the player to move is stuck, one where \<open>P1\<close> has three moves
  and \<open>P2\<close> has one.\<close>

definition lost_pos :: tpos where
  "lost_pos = TPos P1 [(0, 0)] []"

definition open_pos :: tpos where
  "open_pos = TPos P1 [(0, 0)] [((1, 2), TPos P2 [] []), ((2, 1), TPos P2 [] []), ((0, 2), TPos P2 [] [])]"

text \<open>A player whose probe always reports exactly the margin.\<close>

definition on_margin :: "(tpos, player) CustomPlayer" where
  "on_margin = (player_of (tree_board 3 3 2) ''minimax'' False 1)\<lparr>time_left := (\<lambda>k. 10)\<rparr>"

text \<open>
  Further positions. In \<open>mid_pos\<close> the second move is the better one at depths 1 and 2.
  In \<open>doomed_pos\<close> the only move loses after the reply. In \<open>win_pos\<close> the second move
  leaves the opponent without a move.
\<close>

definition mid_pos :: tpos where
  "mid_pos = TPos P1 [(1, 1)]
     [((1, 2), TPos P2 [(2, 0)] [((0, 1), TPos P1 [(2, 2)] [((2, 0), TPos P2 [] [])])]),
      ((2, 1), TPos P2 [(0, 2), (2, 2)]
                 [((0, 1), TPos P1 [(2, 0)] [((0, 2), TPos P2 [] []), ((2, 2), TPos P2 [] [])])])]"

definition doomed_pos :: tpos where
  "doomed_pos = TPos P1 [(1, 1)] [((1, 2), TPos P2 [(2, 0)] [((0, 1), TPos P1 [(2, 2)] [])])]"

definition win_pos :: tpos where
  "win_pos = TPos P1 [(1, 1)]
     [((1, 2), TPos P2 [(2, 0)] [((0, 1), TPos P1 [(2, 2)] [])]),
      ((2, 1), TPos P2 [(0, 2)] [])]"

text \<open>
  A position on which \<open>alphabeta\<close> cuts a branch at depth 2: after the second move the
  first reply already gives the opponent a score that is no better for \<open>P1\<close> than the first
  move, so the second reply is not looked at.
\<close>

definition prune_pos :: tpos where
  "prune_pos = TPos P1 [(1, 1)]
     [((1, 2), TPos P2 [(2, 0)]
                 [((0, 1), TPos P1 [(2, 0)] [((0, 2), TPos P2 [] []), ((2, 2), TPos P2 [] [])])]),
      ((2, 1), TPos P2 [(0, 2)]
                 [((0, 1), TPos P1 [(2, 0)] [((0, 2), TPos P2 [] []), ((2, 2), TPos P2 [] [])]),
                  ((2, 2), TPos P1 [(2, 0)] [((0, 2), TPos P2 [] [])])])]"

text \<open>A probe that always reports 100 ms, and one that drops to 5 ms at its sixth call.\<close>

definition steady :: "nat \<Rightarrow> real" where
  "steady k = 100"

definition running_out :: "nat \<Rightarrow> real" where
  "running_out k = (if k < 5 then 50 else 5)"

section \<open>The evaluation function: properties\<close>

text \<open>
  C8. \<open>custom_score\<close> returns \<open>float("-inf")\<close> when the player is a loser of the position,
  \<open>float("inf")\<close> when the player is a winner (the loser test comes first), and otherwise
  the number of the player's legal moves minus the number of the opponent's legal moves,
  as a float.
\<close>

theorem custom_score_cases:
  "(is_loser B game player \<longrightarrow> custom_score B game player = NegInf) \<and>
   (\<not> is_loser B game player \<and> is_winner B game player \<longrightarrow> custom_score B game player = PosInf) \<and>
   (\<not> is_loser B game player \<and> \<not> is_winner B game player \<longrightarrow>
      custom_score B game player =
        Fin (real_of_int (int (length (get_legal_moves B game player)) -
                          int (length (get_legal_moves B game (get_opponent B game player))))))"
  by (simp add: custom_score_def)

text \<open>On the positions above: a loser, a winner, and three moves against one giving 2.\<close>

theorem custom_score_cases_witness:
  "is_loser (tree_board 3 3 2) lost_pos P1 \<and> custom_score (tree_board 3 3 2) lost_pos P1 = NegInf \<and>
   \<not> is_loser (tree_board 3 3 2) lost_pos P2 \<and> is_winner (tree_board 3 3 2) lost_pos P2 \<and>
   custom_score (tree_board 3 3 2) lost_pos P2 = PosInf \<and>
   \<not> is_loser (tree_board 3 3 2) open_pos P1 \<and> \<not> is_winner (tree_board 3 3 2) open_pos P1 \<and>
   length (get_legal_moves (tree_board 3 3 2) open_pos P1) = 3 \<and>
   length (get_legal_moves (tree_board 3 3 2) open_pos (get_opponent (tree_board 3 3 2) open_pos P1)) = 1 \<and>
   custom_score (tree_board 3 3 2) open_pos P1 = Fin 2"
  using custom_score_cases [of "tree_board 3 3 2" lost_pos P1]
    custom_score_cases [of "tree_board 3 3 2" lost_pos P2]
    custom_score_cases [of "tree_board 3 3 2" open_pos P1]
  by (simp add: tree_board_def lost_pos_def open_pos_def)

section \<open>The time check\<close>

text \<open>
  Every call of a core advances the probe: the first thing a call does is to read it.
  The loops never go back in time, and an exception leaving a loop comes from a call
  that read the probe.
\<close>

lemma minimax_loop_clock:
  assumes "\<And>m k. k < snd (child m k)"
  shows "n \<le> snd (minimax_loop child mx ms hs nm n) \<and>
         (\<forall>e. fst (minimax_loop child mx ms hs nm n) = Inl e \<longrightarrow>
              n < snd (minimax_loop child mx ms hs nm n))"
proof (induction ms arbitrary: hs nm n)
  case Nil
  show ?case by simp
next
  case (Cons m ms)
  obtain r k where ck: "child m n = (r, k)" by (cases "child m n")
  from assms [of n m] ck have nk: "n < k" by simp
  show ?case
  proof (cases r)
    case (Inl e)
    with ck nk show ?thesis by simp
  next
    case (Inr p)
    have "k \<le> snd (minimax_loop child mx ms (fst p) m k)"
      and "k \<le> snd (minimax_loop child mx ms hs nm k)"
      using Cons.IH [where hs = "fst p" and nm = m and n = k]
        Cons.IH [where hs = hs and nm = nm and n = k] by simp_all
    with nk have "n < snd (minimax_loop child mx ms (fst p) m k)"
      and "n < snd (minimax_loop child mx ms hs nm k)"
      by simp_all
    with ck Inr show ?thesis
      by (cases mx) (auto simp: Let_def less_imp_le)
  qed
qed

lemma minimax_clock: "n < snd (minimax B self game d mx n)"
proof (induction d arbitrary: game mx n)
  case 0
  show ?case by simp
next
  case (Suc d)
  have "Suc n \<le> snd (minimax_loop (\<lambda>move k. minimax B self (forecast_move B game move) d (\<not> mx) k)
                        mx ms hs nm (Suc n))"
    for ms hs nm
    using minimax_loop_clock [of "\<lambda>move k. minimax B self (forecast_move B game move) d (\<not> mx) k"]
      Suc.IH by blast
  then show ?case
    by (auto simp: Suc_le_eq dest: Suc_lessD)
qed

lemma minimax_entry:
  "(minimax B self game d mx n = (Inl Timeout, Suc n)) = (time_left self n < TIMER_THRESHOLD self)"
proof (cases d)
  case 0
  then show ?thesis by simp
next
  case (Suc d')
  let ?child = "\<lambda>move k. minimax B self (forecast_move B game move) d' (\<not> mx) k"
  have "minimax_loop ?child mx ms hs nm (Suc n) \<noteq> (Inl Timeout, Suc n)" for ms hs nm
    using minimax_loop_clock [of ?child "Suc n" mx ms hs nm] minimax_clock [of _ B self _ d' "\<not> mx"]
    by (cases "minimax_loop ?child mx ms hs nm (Suc n)") auto
  with Suc show ?thesis by simp
qed

lemma alphabeta_loop_clock:
  assumes "\<And>m a b k. k < snd (child m a b k)"
  shows "n \<le> snd (alphabeta_loop child mx ms hs nm alpha beta n) \<and>
         (\<forall>e. fst (alphabeta_loop child mx ms hs nm alpha beta n) = Inl e \<longrightarrow>
              n < snd (alphabeta_loop child mx ms hs nm alpha beta n))"
proof (induction ms arbitrary: hs nm alpha beta n)
  case Nil
  show ?case by simp
next
  case (Cons m ms)
  obtain r k where ck: "child m alpha beta n = (r, k)" by (cases "child m alpha beta n")
  from assms [of n m alpha beta] ck have nk: "n < k" by simp
  show ?case
  proof (cases r)
    case (Inl e)
    with ck nk show ?thesis by simp
  next
    case (Inr p)
    have "k \<le> snd (alphabeta_loop child mx ms hs' nm' a' b' k)" for hs' nm' a' b'
      using Cons.IH [where hs = hs' and nm = nm' and alpha = a' and beta = b' and n = k] by simp
    with nk have lt: "n < snd (alphabeta_loop child mx ms hs' nm' a' b' k)" for hs' nm' a' b'
      by (rule less_le_trans)
    have ltT: "mx \<Longrightarrow> n < snd (alphabeta_loop child True ms hs' nm' a' b' k)" for hs' nm' a' b'
      using lt [of hs' nm' a' b'] by simp
    have ltF: "\<not> mx \<Longrightarrow> n < snd (alphabeta_loop child False ms hs' nm' a' b' k)" for hs' nm' a' b'
      using lt [of hs' nm' a' b'] by simp
    from ck Inr nk show ?thesis
      by (simp add: Let_def ltT ltF less_imp_le [OF ltT] less_imp_le [OF ltF] less_imp_le)
  qed
qed

lemma alphabeta_clock: "n < snd (alphabeta B self game d alpha beta mx n)"
proof (induction d arbitrary: game alpha beta mx n)
  case 0
  show ?case by simp
next
  case (Suc d)
  let ?child = "\<lambda>move a b k. alphabeta B self (forecast_move B game move) d a b (\<not> mx) k"
  have "Suc n \<le> snd (alphabeta_loop ?child mx ms hs nm alpha beta (Suc n))" for ms hs nm
    using alphabeta_loop_clock [of ?child] Suc.IH by blast
  then show ?case
    by (auto simp: Suc_le_eq dest: Suc_lessD)
qed

lemma alphabeta_entry:
  "(alphabeta B self game d alpha beta mx n = (Inl Timeout, Suc n)) =
   (time_left self n < TIMER_THRESHOLD self)"
proof (cases d)
  case 0
  then show ?thesis by simp
next
  case (Suc d')
  let ?child = "\<lambda>move a b k. alphabeta B self (forecast_move B game move) d' a b (\<not> mx) k"
  have "alphabeta_loop ?child mx ms hs nm alpha beta (Suc n) \<noteq> (Inl Timeout, Suc n)" for ms hs nm
    using alphabeta_loop_clock [of ?child "Suc n" mx ms hs nm alpha beta]
      alphabeta_clock [of _ B self _ d' _ _ "\<not> mx"]
    by (cases "alphabeta_loop ?child mx ms hs nm alpha beta (Suc n)") auto
  with Suc show ?thesis by simp
qed

text \<open>
  C5, as the code has it. A call of \<open>minimax\<close> or \<open>alphabeta\<close>, at any depth, ends
  with \<open>Timeout\<close> after a single reading of the probe, and nothing else done, exactly
  when that reading is strictly below \<open>TIMER_THRESHOLD\<close>. The exception is a result of
  its own kind, not a score.
\<close>

theorem entry_check:
  "((minimax B self game depth maximizing_player n = (Inl Timeout, Suc n)) =
      (time_left self n < TIMER_THRESHOLD self)) \<and>
   ((alphabeta B self game depth alpha beta maximizing_player n = (Inl Timeout, Suc n)) =
      (time_left self n < TIMER_THRESHOLD self))"
  by (simp add: minimax_entry alphabeta_entry)

text \<open>With 9 ms left and a margin of 10 ms both cores abort at once.\<close>

theorem entry_check_witness:
  "time_left (on_margin\<lparr>time_left := (\<lambda>k. 9)\<rparr>) 0 < TIMER_THRESHOLD (on_margin\<lparr>time_left := (\<lambda>k. 9)\<rparr>) \<and>
   minimax (tree_board 3 3 2) (on_margin\<lparr>time_left := (\<lambda>k. 9)\<rparr>) open_pos 1 True 0 = (Inl Timeout, Suc 0) \<and>
   alphabeta (tree_board 3 3 2) (on_margin\<lparr>time_left := (\<lambda>k. 9)\<rparr>) open_pos 1 NegInf PosInf True 0 =
     (Inl Timeout, Suc 0)"
  using entry_check [of "tree_board 3 3 2" "on_margin\<lparr>time_left := (\<lambda>k. 9)\<rparr>" open_pos 1 True 0 NegInf PosInf]
  by (simp add: on_margin_def player_of_def)

text \<open>
  The claim that a reading equal to the margin aborts the search fails: with exactly
  10 ms left and a margin of 10 ms both cores return the evaluation of the position.
\<close>

theorem abort_on_margin_counterexample:
  "time_left on_margin 0 = TIMER_THRESHOLD on_margin \<and>
   minimax (tree_board 3 3 2) on_margin open_pos 0 True 0 = (Inr (Fin 2, no_move), 1) \<and>
   alphabeta (tree_board 3 3 2) on_margin open_pos 0 NegInf PosInf True 0 = (Inr (Fin 2, no_move), 1)"
  by (simp add: on_margin_def player_of_def tree_board_def open_pos_def custom_score_def)

section \<open>Positions without a legal move\<close>

text \<open>
  C4, as the code has it. When the active player has no legal move and the time check
  passes, \<open>minimax\<close> and \<open>alphabeta\<close> at a depth of at least 1 return the value that
  \<open>highest_score\<close> was given before the loop, unchanged, with the move \<open>(-1, -1)\<close>:
  \<open>float("-inf")\<close> on a maximizing ply and \<open>float("+inf")\<close> on a minimizing ply. The
  evaluation function is not consulted and the probe is read once.
\<close>

theorem no_moves_seed:
  assumes "get_legal_moves B game (active_player B game) = []"
    and "\<not> time_left self n < TIMER_THRESHOLD self"
  shows "minimax B self game (Suc d) maximizing_player n =
           (Inr (if maximizing_player then NegInf else PosInf, no_move), Suc n) \<and>
         alphabeta B self game (Suc d) alpha beta maximizing_player n =
           (Inr (if maximizing_player then NegInf else PosInf, no_move), Suc n)"
  using assms by simp

theorem no_moves_seed_witness:
  "get_legal_moves (tree_board 3 3 2) lost_pos (active_player (tree_board 3 3 2) lost_pos) = [] \<and>
   \<not> time_left on_margin 0 < TIMER_THRESHOLD on_margin \<and>
   minimax (tree_board 3 3 2) on_margin lost_pos (Suc 0) True 0 = (Inr (NegInf, no_move), Suc 0) \<and>
   alphabeta (tree_board 3 3 2) on_margin lost_pos (Suc 0) NegInf PosInf True 0 =
     (Inr (NegInf, no_move), Suc 0)"
proof -
  have a: "get_legal_moves (tree_board 3 3 2) lost_pos (active_player (tree_board 3 3 2) lost_pos) = []"
    by (simp add: tree_board_def lost_pos_def)
  have b: "\<not> time_left on_margin 0 < TIMER_THRESHOLD on_margin"
    by (simp add: on_margin_def player_of_def)
  from no_moves_seed [OF a b, of 0 True NegInf PosInf] a b show ?thesis by simp
qed

text \<open>
  The claim that a minimizing ply without legal moves does not return \<open>float("+inf")\<close>
  fails: it returns exactly that, from both cores.
\<close>

theorem minimizing_no_moves_counterexample:
  "get_legal_moves (tree_board 3 3 2) lost_pos (active_player (tree_board 3 3 2) lost_pos) = [] \<and>
   fst (minimax (tree_board 3 3 2) on_margin lost_pos 1 False 0) = Inr (PosInf, no_move) \<and>
   fst (alphabeta (tree_board 3 3 2) on_margin lost_pos 1 NegInf PosInf False 0) = Inr (PosInf, no_move)"
  by (simp add: tree_board_def lost_pos_def on_margin_def player_of_def)

section \<open>The move returned by the driver\<close>

lemma minimax_loop_move:
  "fst (minimax_loop child mx ms hs nm n) = Inr (s, mv) \<Longrightarrow> mv \<in> set ms \<union> {nm}"
proof (induction ms arbitrary: hs nm n)
  case Nil
  then show ?case by simp
next
  case (Cons m ms)
  obtain r k where ck: "child m n = (r, k)" by (cases "child m n")
  show ?case
  proof (cases r)
    case (Inl e)
    with ck Cons.prems show ?thesis by simp
  next
    case (Inr p)
    from Cons.prems ck Inr
    have "fst (minimax_loop child mx ms (fst p) m k) = Inr (s, mv) \<or>
          fst (minimax_loop child mx ms hs nm k) = Inr (s, mv)"
      by (simp add: Let_def split: if_splits)
    then show ?thesis
      using Cons.IH [of "fst p" m k] Cons.IH [of hs nm k] by auto
  qed
qed

lemma minimax_move:
  "fst (minimax B self game d mx n) = Inr (s, mv) \<Longrightarrow>
   mv \<in> set (get_legal_moves B game (active_player B game)) \<union> {no_move}"
  by (cases d) (auto split: if_splits dest: minimax_loop_move)

lemma alphabeta_loop_move:
  "fst (alphabeta_loop child mx ms hs nm alpha beta n) = Inr (s, mv) \<Longrightarrow> mv \<in> set ms \<union> {nm}"
proof (induction ms arbitrary: hs nm alpha beta n)
  case Nil
  then show ?case by simp
next
  case (Cons m ms)
  obtain r k where ck: "child m alpha beta n = (r, k)" by (cases "child m alpha beta n")
  show ?case
  proof (cases r)
    case (Inl e)
    with ck Cons.prems show ?thesis by simp
  next
    case (Inr p)
    from Cons.prems ck Inr
    have "mv = m \<or> mv = nm \<or>
          (\<exists>a b. fst (alphabeta_loop child mx ms (fst p) m a b k) = Inr (s, mv)) \<or>
          (\<exists>a b. fst (alphabeta_loop child mx ms hs nm a b k) = Inr (s, mv))"
      by (auto simp: Let_def split: if_splits)
    then show ?thesis
      using Cons.IH [of "fst p" m _ _ k] Cons.IH [of hs nm _ _ k] by auto
  qed
qed

lemma alphabeta_move:
  "fst (alphabeta B self game d alpha beta mx n) = Inr (s, mv) \<Longrightarrow>
   mv \<in> set (get_legal_moves B game (active_player B game)) \<union> {no_move}"
  by (cases d) (auto split: if_splits dest: alphabeta_loop_move)

lemma search_move:
  "fst (search B self game d n) = Inr (s, mv) \<Longrightarrow>
   mv \<in> set (get_legal_moves B game (active_player B game)) \<union> {no_move}"
  unfolding search_def by (auto split: if_splits dest: minimax_move alphabeta_move)

lemma deepen_move:
  "fst (deepen B self game ds nm n calls)
     \<in> set (get_legal_moves B game (active_player B game)) \<union> {no_move, nm}"
proof (induction ds arbitrary: nm n calls)
  case Nil
  show ?case by simp
next
  case (Cons d ds)
  obtain r k where sk: "search B self game d n = (r, k)" by (cases "search B self game d n")
  show ?case
  proof (cases r)
    case (Inl e)
    with sk show ?thesis by (cases e) simp
  next
    case (Inr p)
    obtain s mv where p: "p = (s, mv)" by (cases p)
    from sk Inr p have "mv \<in> set (get_legal_moves B game (active_player B game)) \<union> {no_move}"
      using search_move [of B self game d n s mv] by simp
    with sk Inr p show ?thesis
      using Cons.IH [of mv k "calls @ [d]"] Cons.IH [of nm k "calls @ [d]"] by auto
  qed
qed

text \<open>
  C9. \<open>get_move\<close> is called with the list of the legal moves of the position (its
  docstring: a list containing legal moves). For every such call, that is, whenever the
  list holds every move of \<open>game.get_legal_moves()\<close>, the move returned is an element of
  the list or \<open>(-1, -1)\<close>. For an empty list the result is \<open>(-1, -1)\<close>, no core is called
  and the probe is not read. Whatever the list, the move returned is its first element,
  or a move that the search took from \<open>game.get_legal_moves()\<close>, or \<open>(-1, -1)\<close>.
\<close>

theorem get_move_result:
  "(set (get_legal_moves B game (active_player B game)) \<subseteq> set legal_moves \<longrightarrow>
      fst (get_move B self game legal_moves time_left_probe n) \<in> set legal_moves \<union> {no_move}) \<and>
   (legal_moves = [] \<longrightarrow> get_move B self game legal_moves time_left_probe n = (no_move, n, [])) \<and>
   fst (get_move B self game legal_moves time_left_probe n)
     \<in> set legal_moves \<union> set (get_legal_moves B game (active_player B game)) \<union> {no_move}"
proof (cases legal_moves)
  case Nil
  then show ?thesis by (simp add: get_move_def)
next
  case (Cons first_move others)
  let ?self = "self\<lparr>time_left := time_left_probe\<rparr>"
  have "fst (deepen B ?self game (iteration_candidate B ?self game) first_move n [])
          \<in> set (get_legal_moves B game (active_player B game)) \<union> {no_move, first_move}"
    by (rule deepen_move)
  with Cons show ?thesis by (auto simp: get_move_def Let_def)
qed

text \<open>On \<open>mid_pos\<close> with its two legal moves, and on an empty list.\<close>

theorem get_move_result_witness:
  "set (get_legal_moves (tree_board 3 3 2) mid_pos (active_player (tree_board 3 3 2) mid_pos))
     \<subseteq> set [(1, 2), (2, 1)] \<and>
   fst (get_move (tree_board 3 3 2) (player_of (tree_board 3 3 2) ''minimax'' False 1) mid_pos
          [(1, 2), (2, 1)] steady 0) \<in> set [(1, 2), (2, 1)] \<union> {no_move} \<and>
   get_move (tree_board 3 3 2) (player_of (tree_board 3 3 2) ''minimax'' False 1) lost_pos
          [] steady 0 = (no_move, 0, [])"
  using get_move_result [where B = "tree_board 3 3 2"
      and self = "player_of (tree_board 3 3 2) ''minimax'' False 1"
      and game = mid_pos and legal_moves = "[(1, 2), (2, 1)]" and time_left_probe = steady and n = 0]
    get_move_result [where B = "tree_board 3 3 2"
      and self = "player_of (tree_board 3 3 2) ''minimax'' False 1"
      and game = lost_pos and legal_moves = "[]" and time_left_probe = steady and n = 0]
  by (simp add: tree_board_def mid_pos_def)

section \<open>The deepening loop\<close>

lemma iteration_candidate_probe [simp]:
  "iteration_candidate B (self\<lparr>time_left := t\<rparr>) game = iteration_candidate B self game"
  by (simp add: iteration_candidate_def)

lemma deepen_append:
  "completed B self game ds1 nm n = Some (nm1, n1) \<Longrightarrow>
   deepen B self game (ds1 @ ds2) nm n calls = deepen B self game ds2 nm1 n1 (calls @ ds1)"
proof (induction ds1 arbitrary: nm n calls)
  case Nil
  then show ?case by simp
next
  case (Cons d ds1)
  obtain r k where sk: "search B self game d n = (r, k)" by (cases "search B self game d n")
  show ?case
  proof (cases r)
    case (Inl e)
    with sk Cons.prems show ?thesis by simp
  next
    case (Inr p)
    obtain s mv where p: "p = (s, mv)" by (cases p)
    from Cons.prems sk Inr p have s: "s \<noteq> PosInf"
      and c: "completed B self game ds1 (if s \<noteq> NegInf then mv else nm) k = Some (nm1, n1)"
      by (auto split: if_splits)
    from Cons.IH [OF c, of "calls @ [d]"] sk Inr p s show ?thesis by simp
  qed
qed

lemma deepen_completed:
  "completed B self game ds nm n = Some (nm1, n1) \<Longrightarrow>
   deepen B self game ds nm n calls = (nm1, n1, calls @ ds)"
  using deepen_append [of B self game ds nm n nm1 n1 "[]" calls] by simp

lemma completed_snoc:
  "completed B self game (ds @ [d]) nm n =
     (case completed B self game ds nm n of
        None \<Rightarrow> None
      | Some (nm0, n0) \<Rightarrow> completed B self game [d] nm0 n0)"
proof (induction ds arbitrary: nm n)
  case Nil
  show ?case by simp
next
  case (Cons a ds)
  show ?case
    by (simp add: Cons.IH split: prod.splits sum.splits)
qed

lemma deepen_calls:
  "\<exists>k\<le>length ds. snd (snd (deepen B self game ds nm n calls)) = calls @ take k ds \<and>
                   (ds \<noteq> [] \<longrightarrow> 0 < k)"
proof (induction ds arbitrary: nm n calls)
  case Nil
  show ?case by simp
next
  case (Cons d ds)
  obtain r k where sk: "search B self game d n = (r, k)" by (cases "search B self game d n")
  have one: "calls @ [d] = calls @ take (Suc 0) (d # ds)" by simp
  show ?case
  proof (cases r)
    case (Inl e)
    with sk one show ?thesis
      by (cases e) (auto intro!: exI [of _ "Suc 0"])
  next
    case (Inr p)
    obtain s mv where p: "p = (s, mv)" by (cases p)
    show ?thesis
    proof (cases "s = PosInf")
      case True
      with sk Inr p one show ?thesis
        by (auto intro!: exI [of _ "Suc 0"])
    next
      case False
      let ?nm = "if s \<noteq> NegInf then mv else nm"
      from Cons.IH [of ?nm k "calls @ [d]"] obtain j where
        j: "j \<le> length ds"
        "snd (snd (deepen B self game ds ?nm k (calls @ [d]))) = (calls @ [d]) @ take j ds"
        by blast
      from sk Inr p False have
        "deepen B self game (d # ds) nm n calls = deepen B self game ds ?nm k (calls @ [d])"
        by simp
      with j have "Suc j \<le> length (d # ds)"
        and "snd (snd (deepen B self game (d # ds) nm n calls)) = calls @ take (Suc j) (d # ds)"
        by simp_all
      then show ?thesis by blast
    qed
  qed
qed

lemma deepen_stop:
  assumes "completed B self game ds1 nm n = Some (nm1, n1)"
    and "search B self game d n1 = (r, n2)"
    and "r = Inl Timeout \<or> (\<exists>mv. r = Inr (PosInf, mv))"
  shows "deepen B self game (ds1 @ d # ds2) nm n calls = (nm1, n2, calls @ ds1 @ [d])"
proof -
  have "deepen B self game (d # ds2) nm1 n1 (calls @ ds1) = (nm1, n2, (calls @ ds1) @ [d])"
    using assms(2,3) by auto
  with deepen_append [OF assms(1), of "d # ds2" calls] show ?thesis by simp
qed

lemma not_completed:
  "completed B self game ds nm n = None \<Longrightarrow>
   \<exists>ds1 d ds2 nm1 n1 r n2.
     ds = ds1 @ d # ds2 \<and> completed B self game ds1 nm n = Some (nm1, n1) \<and>
     search B self game d n1 = (r, n2) \<and> (r = Inl Timeout \<or> (\<exists>mv. r = Inr (PosInf, mv)))"
proof (induction ds arbitrary: nm n)
  case Nil
  then show ?case by simp
next
  case (Cons d ds)
  obtain r k where sk: "search B self game d n = (r, k)" by (cases "search B self game d n")
  have here: ?case if "r = Inl Timeout \<or> (\<exists>mv. r = Inr (PosInf, mv))"
  proof -
    have "d # ds = [] @ d # ds" "completed B self game [] nm n = Some (nm, n)"
      by simp_all
    with sk that show ?thesis by blast
  qed
  show ?case
  proof (cases r)
    case (Inl e)
    then have "r = Inl Timeout" by (cases e) simp
    then show ?thesis by (intro here) simp
  next
    case (Inr p)
    obtain s mv where p: "p = (s, mv)" by (cases p)
    show ?thesis
    proof (cases "s = PosInf")
      case True
      with Inr p show ?thesis by (intro here) simp
    next
      case False
      let ?nm = "if s \<noteq> NegInf then mv else nm"
      from Cons.prems sk Inr p False have "completed B self game ds ?nm k = None"
        by simp
      from Cons.IH [OF this] obtain ds1 d' ds2 nm1 n1 r' n2 where
        a: "ds = ds1 @ d' # ds2" and b: "completed B self game ds1 ?nm k = Some (nm1, n1)"
        and c: "search B self game d' n1 = (r', n2)"
        and e: "r' = Inl Timeout \<or> (\<exists>mv. r' = Inr (PosInf, mv))"
        by blast
      from a have "d # ds = (d # ds1) @ d' # ds2" by simp
      moreover from b sk Inr p False have "completed B self game (d # ds1) nm n = Some (nm1, n1)"
        by simp
      ultimately show ?thesis using c e by blast
    qed
  qed
qed

text \<open>
  C6, as the code has it. Without iterative deepening and with a non-empty list of
  legal moves, \<open>get_move\<close> calls the selected core once, at \<open>search_depth\<close>. When that
  search returns a score that is neither infinity, \<open>get_move\<close> returns the move of the
  search; when it returns \<open>float("-inf")\<close>, or aborts, \<open>get_move\<close> returns the first legal
  move it was given.
\<close>

theorem fixed_depth_search:
  assumes "\<not> iterative self"
    and "legal_moves = first_move # others"
    and "search B (self\<lparr>time_left := time_left_probe\<rparr>) game (search_depth self) n = (r, n')"
  shows "snd (get_move B self game legal_moves time_left_probe n) = (n', [search_depth self]) \<and>
         (\<forall>s mv. r = Inr (s, mv) \<longrightarrow> s \<noteq> PosInf \<longrightarrow>
            fst (get_move B self game legal_moves time_left_probe n) =
              (if s = NegInf then first_move else mv)) \<and>
         (r = Inl Timeout \<longrightarrow>
            fst (get_move B self game legal_moves time_left_probe n) = first_move)"
proof (cases r)
  case (Inl e)
  with assms show ?thesis
    by (cases e) (simp add: get_move_def iteration_candidate_def)
next
  case (Inr p)
  obtain s mv where "p = (s, mv)" by (cases p)
  with Inr assms show ?thesis
    by (simp add: get_move_def iteration_candidate_def)
qed

theorem fixed_depth_search_witness:
  "\<not> iterative (player_of (tree_board 3 3 2) ''minimax'' False 1) \<and>
   search (tree_board 3 3 2) ((player_of (tree_board 3 3 2) ''minimax'' False 1)\<lparr>time_left := steady\<rparr>)
     mid_pos 1 0 = (Inr (Fin 1, (2, 1)), 3) \<and>
   get_move (tree_board 3 3 2) (player_of (tree_board 3 3 2) ''minimax'' False 1) mid_pos
     [(1, 2), (2, 1)] steady 0 = ((2, 1), 3, [1])"
proof -
  let ?B = "tree_board 3 3 2"
  let ?P = "player_of ?B ''minimax'' False 1"
  have a: "\<not> iterative ?P"
    by (simp add: player_of_def)
  have d: "search_depth ?P = 1"
    by (simp add: player_of_def)
  have c: "search ?B (?P\<lparr>time_left := steady\<rparr>) mid_pos (search_depth ?P) 0 = (Inr (Fin 1, (2, 1)), 3)"
    by code_simp
  from fixed_depth_search [OF a refl c, of "(1, 2)" "[(2, 1)]"]
  have g: "get_move ?B ?P mid_pos [(1, 2), (2, 1)] steady 0 = ((2, 1), 3, [search_depth ?P])"
    by (simp add: prod_eq_iff)
  from a c [unfolded d] g [unfolded d] show ?thesis by blast
qed

text \<open>
  The claim fails when the search returns \<open>float("-inf")\<close>: at depth 2 on \<open>doomed_pos\<close>
  the search completes with the move \<open>(-1, -1)\<close> and \<open>get_move\<close> returns \<open>(1, 2)\<close>.
\<close>

theorem fixed_depth_forced_loss_counterexample:
  "fst (search (tree_board 3 3 2)
          ((player_of (tree_board 3 3 2) ''minimax'' False 2)\<lparr>time_left := steady\<rparr>) doomed_pos 2 0)
     = Inr (NegInf, (-1, -1)) \<and>
   fst (get_move (tree_board 3 3 2) (player_of (tree_board 3 3 2) ''minimax'' False 2) doomed_pos
          [(1, 2)] steady 0) = (1, 2)"
  by code_simp

text \<open>
  C1 on the code. On \<open>win_pos\<close> the depth-1 search of either core completes with the
  score \<open>float("+inf")\<close> and the move \<open>(2, 1)\<close>; \<open>get_move\<close> stops after this one search and
  returns \<open>(1, 2)\<close>, the first legal move, not the move of that iteration.
\<close>

theorem forced_win_move_not_returned:
  "search (tree_board 3 3 2) ((player_of (tree_board 3 3 2) ''minimax'' True 3)\<lparr>time_left := steady\<rparr>)
     win_pos 1 0 = (Inr (PosInf, (2, 1)), 3) \<and>
   get_move (tree_board 3 3 2) (player_of (tree_board 3 3 2) ''minimax'' True 3) win_pos
     [(1, 2), (2, 1)] steady 0 = ((1, 2), 3, [1]) \<and>
   search (tree_board 3 3 2) ((player_of (tree_board 3 3 2) ''alphabeta'' True 3)\<lparr>time_left := steady\<rparr>)
     win_pos 1 0 = (Inr (PosInf, (2, 1)), 3) \<and>
   get_move (tree_board 3 3 2) (player_of (tree_board 3 3 2) ''alphabeta'' True 3) win_pos
     [(1, 2), (2, 1)] steady 0 = ((1, 2), 3, [1])"
  by code_simp

text \<open>
  C3, as the code has it. With iterative deepening the candidate depths are
  \<open>1, 2, ..., move_count + width * height - 2\<close> in this order (none when that number is
  below 1). For a non-empty list of legal moves \<open>get_move\<close> calls the selected core at
  these depths in order, starting at depth 1. The first search that raises \<open>Timeout\<close> or
  returns \<open>float("+inf")\<close> ends the loop: it is the last search made, and \<open>get_move\<close>
  returns the move recorded before it. The loop ends early in no other way: when every
  search returns and none returns \<open>float("+inf")\<close>, all the candidate depths are searched,
  and the largest depth attempted is \<open>move_count + width * height - 2\<close>.
\<close>

theorem iterative_depths:
  assumes "iterative self"
    and "legal_moves = first_move # others"
  shows "iteration_candidate B self game =
           map nat [1 .. move_count B game + width B game * height B game - 2] \<and>
         length (iteration_candidate B self game) =
           nat (move_count B game + width B game * height B game - 2) \<and>
         (\<forall>i<length (iteration_candidate B self game). iteration_candidate B self game ! i = Suc i) \<and>
         (\<exists>k\<le>length (iteration_candidate B self game).
            snd (snd (get_move B self game legal_moves time_left_probe n)) =
              take k (iteration_candidate B self game) \<and>
            (iteration_candidate B self game \<noteq> [] \<longrightarrow> 0 < k)) \<and>
         (\<forall>nm n'. completed B (self\<lparr>time_left := time_left_probe\<rparr>) game
                     (iteration_candidate B self game) first_move n = Some (nm, n') \<longrightarrow>
            get_move B self game legal_moves time_left_probe n =
              (nm, n', iteration_candidate B self game)) \<and>
         (\<forall>ds1 d ds2 nm n1 r n2.
            iteration_candidate B self game = ds1 @ d # ds2 \<and>
            completed B (self\<lparr>time_left := time_left_probe\<rparr>) game ds1 first_move n = Some (nm, n1) \<and>
            search B (self\<lparr>time_left := time_left_probe\<rparr>) game d n1 = (r, n2) \<and>
            (r = Inl Timeout \<or> (\<exists>mv. r = Inr (PosInf, mv))) \<longrightarrow>
            get_move B self game legal_moves time_left_probe n = (nm, n2, ds1 @ [d])) \<and>
         ((\<exists>nm n'. completed B (self\<lparr>time_left := time_left_probe\<rparr>) game
                      (iteration_candidate B self game) first_move n = Some (nm, n') \<and>
                    get_move B self game legal_moves time_left_probe n =
                      (nm, n', iteration_candidate B self game)) \<or>
          (\<exists>ds1 d ds2 nm n1 r n2.
             iteration_candidate B self game = ds1 @ d # ds2 \<and>
             completed B (self\<lparr>time_left := time_left_probe\<rparr>) game ds1 first_move n = Some (nm, n1) \<and>
             search B (self\<lparr>time_left := time_left_probe\<rparr>) game d n1 = (r, n2) \<and>
             (r = Inl Timeout \<or> (\<exists>mv. r = Inr (PosInf, mv))) \<and>
             get_move B self game legal_moves time_left_probe n = (nm, n2, ds1 @ [d])))"
proof -
  let ?K = "move_count B game + width B game * height B game - 2"
  let ?self = "self\<lparr>time_left := time_left_probe\<rparr>"
  let ?ds = "iteration_candidate B self game"
  have c: "?ds = map nat [1 .. ?K]"
    using assms(1) by (simp add: iteration_candidate_def algebra_simps)
  have l: "length ?ds = nat ?K"
    by (simp add: c)
  have i: "?ds ! i = Suc i" if "i < length ?ds" for i
    using that by (simp add: c)
  have g: "get_move B self game legal_moves time_left_probe n =
             deepen B ?self game ?ds first_move n []"
    using assms(2) by (simp add: get_move_def)
  have p: "\<exists>k\<le>length ?ds.
             snd (snd (get_move B self game legal_moves time_left_probe n)) = take k ?ds \<and>
             (?ds \<noteq> [] \<longrightarrow> 0 < k)"
    using deepen_calls [of ?ds B ?self game first_move n "[]"]
    by (simp add: g)
  have f: "get_move B self game legal_moves time_left_probe n = (nm, n', ?ds)"
    if "completed B ?self game ?ds first_move n = Some (nm, n')" for nm n'
    using deepen_completed [OF that, of "[]"] by (simp add: g)
  have s: "get_move B self game legal_moves time_left_probe n = (nm, n2, ds1 @ [d])"
    if "?ds = ds1 @ d # ds2" "completed B ?self game ds1 first_move n = Some (nm, n1)"
      "search B ?self game d n1 = (r, n2)" "r = Inl Timeout \<or> (\<exists>mv. r = Inr (PosInf, mv))"
    for ds1 d ds2 nm n1 r n2
    using deepen_stop [OF that(2,3,4), of ds2 "[]"] that(1) by (simp add: g)
  have e: "(\<exists>nm n'. completed B ?self game ?ds first_move n = Some (nm, n') \<and>
                    get_move B self game legal_moves time_left_probe n = (nm, n', ?ds)) \<or>
           (\<exists>ds1 d ds2 nm n1 r n2.
              ?ds = ds1 @ d # ds2 \<and> completed B ?self game ds1 first_move n = Some (nm, n1) \<and>
              search B ?self game d n1 = (r, n2) \<and>
              (r = Inl Timeout \<or> (\<exists>mv. r = Inr (PosInf, mv))) \<and>
              get_move B self game legal_moves time_left_probe n = (nm, n2, ds1 @ [d]))"
  proof (cases "completed B ?self game ?ds first_move n")
    case None
    from not_completed [OF None] obtain ds1 d ds2 nm n1 r n2 where
      x: "?ds = ds1 @ d # ds2" "completed B ?self game ds1 first_move n = Some (nm, n1)"
      "search B ?self game d n1 = (r, n2)" "r = Inl Timeout \<or> (\<exists>mv. r = Inr (PosInf, mv))"
      by blast
    from s [OF x] x show ?thesis by blast
  next
    case (Some a)
    obtain nm n' where "a = (nm, n')" by (cases a)
    with Some f show ?thesis by blast
  qed
  have s': "\<forall>ds1 d ds2 nm n1 r n2.
              ?ds = ds1 @ d # ds2 \<and> completed B ?self game ds1 first_move n = Some (nm, n1) \<and>
              search B ?self game d n1 = (r, n2) \<and>
              (r = Inl Timeout \<or> (\<exists>mv. r = Inr (PosInf, mv))) \<longrightarrow>
              get_move B self game legal_moves time_left_probe n = (nm, n2, ds1 @ [d])"
    using s by blast
  have f': "\<forall>nm n'. completed B ?self game ?ds first_move n = Some (nm, n') \<longrightarrow>
              get_move B self game legal_moves time_left_probe n = (nm, n', ?ds)"
    using f by blast
  have i': "\<forall>i<length ?ds. ?ds ! i = Suc i"
    using i by blast
  show ?thesis
    using c l i' p f' s' e by (intro conjI)
qed

text \<open>
  On \<open>doomed_pos\<close> no search aborts or returns \<open>float("+inf")\<close> and the depths 1 to 9 are
  all searched. On \<open>win_pos\<close> the search at depth 1 returns \<open>float("+inf")\<close> and is the only
  one made. On \<open>mid_pos\<close> with the probe running out, the search at depth 2 aborts and
  is the last one made.
\<close>

theorem iterative_depths_witness:
  "iterative (player_of (tree_board 3 3 2) ''minimax'' True 3) \<and>
   iteration_candidate (tree_board 3 3 2) (player_of (tree_board 3 3 2) ''minimax'' True 3) doomed_pos
     = [1, 2, 3, 4, 5, 6, 7, 8, 9] \<and>
   completed (tree_board 3 3 2) ((player_of (tree_board 3 3 2) ''minimax'' True 3)\<lparr>time_left := steady\<rparr>)
     doomed_pos [1, 2, 3, 4, 5, 6, 7, 8, 9] (1, 2) 0 = Some ((1, 2), 26) \<and>
   get_move (tree_board 3 3 2) (player_of (tree_board 3 3 2) ''minimax'' True 3) doomed_pos
     [(1, 2)] steady 0 = ((1, 2), 26, [1, 2, 3, 4, 5, 6, 7, 8, 9]) \<and>
   search (tree_board 3 3 2) ((player_of (tree_board 3 3 2) ''minimax'' True 3)\<lparr>time_left := steady\<rparr>)
     win_pos 1 0 = (Inr (PosInf, (2, 1)), 3) \<and>
   get_move (tree_board 3 3 2) (player_of (tree_board 3 3 2) ''minimax'' True 3) win_pos
     [(1, 2), (2, 1)] steady 0 = ((1, 2), 3, [1]) \<and>
   search (tree_board 3 3 2) ((player_of (tree_board 3 3 2) ''minimax'' True 3)\<lparr>time_left := running_out\<rparr>)
     mid_pos 2 3 = (Inl Timeout, 6) \<and>
   get_move (tree_board 3 3 2) (player_of (tree_board 3 3 2) ''minimax'' True 3) mid_pos
     [(1, 2), (2, 1)] running_out 0 = ((2, 1), 6, [1, 2])"
proof -
  let ?B = "tree_board 3 3 2"
  let ?P = "player_of ?B ''minimax'' True 3"
  have a: "iterative ?P"
    by (simp add: player_of_def)
  have c: "iteration_candidate ?B ?P doomed_pos = [1, 2, 3, 4, 5, 6, 7, 8, 9]"
    by code_simp
  have d: "completed ?B (?P\<lparr>time_left := steady\<rparr>) doomed_pos
             (iteration_candidate ?B ?P doomed_pos) (1, 2) 0 = Some ((1, 2), 26)"
    by code_simp
  note full = iterative_depths [of ?P "[(1, 2)]" "(1, 2)" "[]" ?B doomed_pos steady 0, OF a refl]
  from full
  have "\<forall>nm n'. completed ?B (?P\<lparr>time_left := steady\<rparr>) doomed_pos
                   (iteration_candidate ?B ?P doomed_pos) (1, 2) 0 = Some (nm, n') \<longrightarrow>
          get_move ?B ?P doomed_pos [(1, 2)] steady 0 =
            (nm, n', iteration_candidate ?B ?P doomed_pos)"
    by (elim conjE)
  with d have g: "get_move ?B ?P doomed_pos [(1, 2)] steady 0 =
                    ((1, 2), 26, iteration_candidate ?B ?P doomed_pos)"
    by blast
  have wc: "iteration_candidate ?B ?P win_pos = [] @ 1 # [2, 3, 4, 5, 6, 7, 8, 9]"
    by code_simp
  have wp: "completed ?B (?P\<lparr>time_left := steady\<rparr>) win_pos [] (1, 2) 0 = Some ((1, 2), 0)"
    by simp
  have ws: "search ?B (?P\<lparr>time_left := steady\<rparr>) win_pos 1 0 = (Inr (PosInf, (2, 1)), 3)"
    by code_simp
  note win = iterative_depths [of ?P "[(1, 2), (2, 1)]" "(1, 2)" "[(2, 1)]" ?B win_pos steady 0,
      OF a refl]
  from win
  have "\<forall>ds1 d ds2 nm n1 r n2.
          iteration_candidate ?B ?P win_pos = ds1 @ d # ds2 \<and>
          completed ?B (?P\<lparr>time_left := steady\<rparr>) win_pos ds1 (1, 2) 0 = Some (nm, n1) \<and>
          search ?B (?P\<lparr>time_left := steady\<rparr>) win_pos d n1 = (r, n2) \<and>
          (r = Inl Timeout \<or> (\<exists>mv. r = Inr (PosInf, mv))) \<longrightarrow>
          get_move ?B ?P win_pos [(1, 2), (2, 1)] steady 0 = (nm, n2, ds1 @ [d])"
    by (elim conjE)
  with wc wp ws have "get_move ?B ?P win_pos [(1, 2), (2, 1)] steady 0 = ((1, 2), 3, [] @ [1])"
    by blast
  then have wg: "get_move ?B ?P win_pos [(1, 2), (2, 1)] steady 0 = ((1, 2), 3, [1])"
    by simp
  have mc: "iteration_candidate ?B ?P mid_pos = [1] @ 2 # [3, 4, 5, 6, 7, 8, 9]"
    by code_simp
  have mp: "completed ?B (?P\<lparr>time_left := running_out\<rparr>) mid_pos [1] (1, 2) 0 = Some ((2, 1), 3)"
    by code_simp
  have ms: "search ?B (?P\<lparr>time_left := running_out\<rparr>) mid_pos 2 3 = (Inl Timeout, 6)"
    by code_simp
  note mid = iterative_depths [of ?P "[(1, 2), (2, 1)]" "(1, 2)" "[(2, 1)]" ?B mid_pos running_out 0,
      OF a refl]
  from mid
  have "\<forall>ds1 d ds2 nm n1 r n2.
          iteration_candidate ?B ?P mid_pos = ds1 @ d # ds2 \<and>
          completed ?B (?P\<lparr>time_left := running_out\<rparr>) mid_pos ds1 (1, 2) 0 = Some (nm, n1) \<and>
          search ?B (?P\<lparr>time_left := running_out\<rparr>) mid_pos d n1 = (r, n2) \<and>
          (r = Inl Timeout \<or> (\<exists>mv. r = Inr (PosInf, mv))) \<longrightarrow>
          get_move ?B ?P mid_pos [(1, 2), (2, 1)] running_out 0 = (nm, n2, ds1 @ [d])"
    by (elim conjE)
  with mc mp ms have "get_move ?B ?P mid_pos [(1, 2), (2, 1)] running_out 0 = ((2, 1), 6, [1] @ [2])"
    by blast
  then have mg: "get_move ?B ?P mid_pos [(1, 2), (2, 1)] running_out 0 = ((2, 1), 6, [1, 2])"
    by simp
  from a c d [unfolded c] g [unfolded c] ws wg ms mg
  show ?thesis by (intro conjI)
qed

text \<open>
  The claim that the largest depth is the cell count minus the moves played fails: on
  a 3 by 3 board after 2 moves that number is 7, and the searches on \<open>doomed_pos\<close> run at
  the depths 1 to 9.
\<close>

theorem largest_depth_counterexample:
  "width (tree_board 3 3 2) doomed_pos * height (tree_board 3 3 2) doomed_pos
     - move_count (tree_board 3 3 2) doomed_pos = 7 \<and>
   snd (snd (get_move (tree_board 3 3 2) (player_of (tree_board 3 3 2) ''minimax'' True 3) doomed_pos
          [(1, 2)] steady 0)) = [1, 2, 3, 4, 5, 6, 7, 8, 9] \<and>
   last [1, 2, 3, 4, 5, 6, 7, 8, 9 :: nat] \<noteq> 7"
  by code_simp

text \<open>
  C7. When the search at some depth raises \<open>Timeout\<close> after the searches at the depths
  before it have all returned, \<open>get_move\<close> returns normally, and what it returns is the
  move recorded by those completed searches: the first legal move if there was none, and
  otherwise the record as the last completed search left it (its own move unless its
  score was \<open>float("-inf")\<close>, in which case the record of the searches before it). The
  aborted search contributes nothing but the probe calls it made.
\<close>

theorem timeout_keeps_recorded_move:
  assumes "legal_moves = first_move # others"
    and "iteration_candidate B self game = ds1 @ d # ds2"
    and "completed B (self\<lparr>time_left := time_left_probe\<rparr>) game ds1 first_move n = Some (nm, n1)"
    and "search B (self\<lparr>time_left := time_left_probe\<rparr>) game d n1 = (Inl Timeout, n2)"
  shows "get_move B self game legal_moves time_left_probe n = (nm, n2, ds1 @ [d]) \<and>
         (ds1 = [] \<longrightarrow> nm = first_move) \<and>
         (\<forall>ds0 d0. ds1 = ds0 @ [d0] \<longrightarrow>
            (\<exists>nm0 n0 s mv.
               completed B (self\<lparr>time_left := time_left_probe\<rparr>) game ds0 first_move n = Some (nm0, n0) \<and>
               search B (self\<lparr>time_left := time_left_probe\<rparr>) game d0 n0 = (Inr (s, mv), n1) \<and>
               s \<noteq> PosInf \<and> nm = (if s \<noteq> NegInf then mv else nm0)))"
proof -
  let ?self = "self\<lparr>time_left := time_left_probe\<rparr>"
  have "get_move B self game legal_moves time_left_probe n =
          deepen B ?self game (ds1 @ d # ds2) first_move n []"
    using assms(1,2) by (simp add: get_move_def)
  also have "\<dots> = deepen B ?self game (d # ds2) nm n1 ([] @ ds1)"
    by (rule deepen_append [OF assms(3)])
  also have "\<dots> = (nm, n2, ds1 @ [d])"
    using assms(4) by simp
  finally have g: "get_move B self game legal_moves time_left_probe n = (nm, n2, ds1 @ [d])" .
  have e: "nm = first_move" if "ds1 = []"
    using assms(3) that by simp
  have h: "\<exists>nm0 n0 s mv.
             completed B ?self game ds0 first_move n = Some (nm0, n0) \<and>
             search B ?self game d0 n0 = (Inr (s, mv), n1) \<and>
             s \<noteq> PosInf \<and> nm = (if s \<noteq> NegInf then mv else nm0)"
    if "ds1 = ds0 @ [d0]" for ds0 d0
  proof -
    from assms(3) that obtain nm0 n0 where
      c0: "completed B ?self game ds0 first_move n = Some (nm0, n0)"
      and c1: "completed B ?self game [d0] nm0 n0 = Some (nm, n1)"
      by (auto simp: completed_snoc split: option.splits)
    obtain r k where sk: "search B ?self game d0 n0 = (r, k)"
      by (cases "search B ?self game d0 n0")
    from c1 sk obtain s mv where "r = Inr (s, mv)" "s \<noteq> PosInf"
      "nm = (if s \<noteq> NegInf then mv else nm0)" "k = n1"
      by (cases r) (auto split: if_splits)
    with c0 sk show ?thesis by blast
  qed
  from g e h show ?thesis by blast
qed

theorem timeout_keeps_recorded_move_witness:
  "iteration_candidate (tree_board 3 3 2) (player_of (tree_board 3 3 2) ''minimax'' True 3) mid_pos
     = [1] @ 2 # [3, 4, 5, 6, 7, 8, 9] \<and>
   completed (tree_board 3 3 2) ((player_of (tree_board 3 3 2) ''minimax'' True 3)\<lparr>time_left := running_out\<rparr>)
     mid_pos [1] (1, 2) 0 = Some ((2, 1), 3) \<and>
   search (tree_board 3 3 2) ((player_of (tree_board 3 3 2) ''minimax'' True 3)\<lparr>time_left := running_out\<rparr>)
     mid_pos 2 3 = (Inl Timeout, 6) \<and>
   get_move (tree_board 3 3 2) (player_of (tree_board 3 3 2) ''minimax'' True 3) mid_pos
     [(1, 2), (2, 1)] running_out 0 = ((2, 1), 6, [1, 2])"
proof -
  let ?B = "tree_board 3 3 2"
  let ?P = "player_of ?B ''minimax'' True 3"
  have c: "iteration_candidate ?B ?P mid_pos = [1] @ 2 # [3, 4, 5, 6, 7, 8, 9]"
    by code_simp
  have d: "completed ?B (?P\<lparr>time_left := running_out\<rparr>) mid_pos [1] (1, 2) 0 = Some ((2, 1), 3)"
    by code_simp
  have e: "search ?B (?P\<lparr>time_left := running_out\<rparr>) mid_pos 2 3 = (Inl Timeout, 6)"
    by code_simp
  from timeout_keeps_recorded_move [OF refl c d e, of "[(2, 1)]"]
  have "get_move ?B ?P mid_pos [(1, 2), (2, 1)] running_out 0 = ((2, 1), 6, [1, 2])"
    by simp
  with c d e show ?thesis by simp
qed

section \<open>Pruning keeps the result\<close>

lemma NegInf_least [simp]: "NegInf \<le> x" "\<not> x < NegInf" "x \<le> NegInf \<longleftrightarrow> x = NegInf"
  by (cases x; simp add: less_pyfloat_def)+

lemma PosInf_greatest [simp]: "x \<le> PosInf" "\<not> PosInf < x" "PosInf \<le> x \<longleftrightarrow> x = PosInf"
  by (cases x; simp add: less_pyfloat_def)+

lemma max_NegInf [simp]: "max a NegInf = a" "max NegInf a = a"
  by (simp_all add: max_def)

lemma min_PosInf [simp]: "min b PosInf = b" "min PosInf b = b"
  by (simp_all add: min_def)

lemma less_PosInf_iff: "x < PosInf \<longleftrightarrow> x \<noteq> PosInf"
  by (cases x; simp add: less_pyfloat_def)

lemma NegInf_less_iff: "NegInf < x \<longleftrightarrow> x \<noteq> NegInf"
  by (cases x; simp add: less_pyfloat_def)

lemma minimax_result_loop_max:
  "minimax_result_loop g True (m # ms) hs nm =
     minimax_result_loop g True ms (if hs < g m then g m else hs) (if hs < g m then m else nm)"
  by simp

lemma minimax_result_loop_min:
  "minimax_result_loop g False (m # ms) hs nm =
     minimax_result_loop g False ms (if g m < hs then g m else hs) (if g m < hs then m else nm)"
  by simp

lemma alphabeta_result_loop_max:
  assumes "hs' = (if hs < f m a b then f m a b else hs)"
    and "nm' = (if hs < f m a b then m else nm)"
  shows "alphabeta_result_loop f True (m # ms) hs nm a b =
           (if b \<le> max a hs' then (hs', nm')
            else alphabeta_result_loop f True ms hs' nm' (max a hs') b)"
  using assms by (simp add: Let_def)

lemma alphabeta_result_loop_min:
  assumes "hs' = (if f m a b < hs then f m a b else hs)"
    and "nm' = (if f m a b < hs then m else nm)"
  shows "alphabeta_result_loop f False (m # ms) hs nm a b =
           (if min b hs' \<le> a then (hs', nm')
            else alphabeta_result_loop f False ms hs' nm' a (min b hs'))"
  using assms by (simp add: Let_def)

lemma minimax_result_loop_ge: "hs \<le> fst (minimax_result_loop g True ms hs nm)"
proof (induction ms arbitrary: hs nm)
  case Nil
  show ?case by simp
next
  case (Cons m ms)
  show ?case
    using Cons.IH [of "g m" m] Cons.IH [of hs nm] by (auto simp: Let_def)
qed

lemma minimax_result_loop_le: "fst (minimax_result_loop g False ms hs nm) \<le> hs"
proof (induction ms arbitrary: hs nm)
  case Nil
  show ?case by simp
next
  case (Cons m ms)
  show ?case
    using Cons.IH [of "g m" m] Cons.IH [of hs nm] by (auto simp: Let_def)
qed

lemma window_step_max:
  assumes "window (max a0 hs) b v x" and "max a0 hs < b"
    and "hs \<le> a0 \<longrightarrow> hsm \<le> hs" and "a0 < hs \<longrightarrow> hs = hsm"
    and "hs' = (if hs < v then v else hs)" and "hsm' = (if hsm < x then x else hsm)"
  shows "max (max a0 hs) hs' = max a0 hs'"
    and "b \<le> max a0 hs' \<Longrightarrow> b \<le> hs' \<and> hs' \<le> hsm'"
    and "\<not> b \<le> max a0 hs' \<Longrightarrow> (hs' \<le> a0 \<longrightarrow> hsm' \<le> hs') \<and> (a0 < hs' \<longrightarrow> hs' = hsm')"
  using assms by (auto simp: window_def max_def split: if_splits)

lemma window_step_min:
  assumes "window a (min b0 hs) v x" and "a < min b0 hs"
    and "b0 \<le> hs \<longrightarrow> hs \<le> hsm" and "hs < b0 \<longrightarrow> hs = hsm"
    and "hs' = (if v < hs then v else hs)" and "hsm' = (if x < hsm then x else hsm)"
  shows "min (min b0 hs) hs' = min b0 hs'"
    and "min b0 hs' \<le> a \<Longrightarrow> hs' \<le> a \<and> hsm' \<le> hs'"
    and "\<not> min b0 hs' \<le> a \<Longrightarrow> (b0 \<le> hs' \<longrightarrow> hs' \<le> hsm') \<and> (hs' < b0 \<longrightarrow> hs' = hsm')"
  using assms by (auto simp: window_def min_def split: if_splits)

lemma result_loop_window_max:
  assumes ch: "\<And>m a b. a < b \<Longrightarrow> window a b (f m a b) (g m)"
  shows "max a0 hs < b \<Longrightarrow> (hs \<le> a0 \<longrightarrow> hsm \<le> hs) \<Longrightarrow> (a0 < hs \<longrightarrow> hs = hsm) \<Longrightarrow>
         window a0 b (fst (alphabeta_result_loop f True ms hs nm (max a0 hs) b))
                     (fst (minimax_result_loop g True ms hsm nmm))"
proof (induction ms arbitrary: hs nm hsm nmm)
  case Nil
  then show ?case by (auto simp: window_def)
next
  case (Cons m ms)
  define v where "v = f m (max a0 hs) b"
  define x where "x = g m"
  define hs' where "hs' = (if hs < v then v else hs)"
  define nm' where "nm' = (if hs < v then m else nm)"
  define hsm' where "hsm' = (if hsm < x then x else hsm)"
  define nmm' where "nmm' = (if hsm < x then m else nmm)"
  have w: "window (max a0 hs) b v x"
    unfolding v_def x_def by (rule ch [OF Cons.prems(1)])
  note st = window_step_max [OF w Cons.prems hs'_def hsm'_def]
  have A: "alphabeta_result_loop f True (m # ms) hs nm (max a0 hs) b =
             (if b \<le> max a0 hs' then (hs', nm')
              else alphabeta_result_loop f True ms hs' nm' (max a0 hs') b)"
  proof -
    have "alphabeta_result_loop f True (m # ms) hs nm (max a0 hs) b =
            (if b \<le> max (max a0 hs) hs' then (hs', nm')
             else alphabeta_result_loop f True ms hs' nm' (max (max a0 hs) hs') b)"
      by (rule alphabeta_result_loop_max) (simp_all only: hs'_def nm'_def v_def)
    then show ?thesis by (simp only: st(1))
  qed
  have M: "minimax_result_loop g True (m # ms) hsm nmm = minimax_result_loop g True ms hsm' nmm'"
    by (simp add: minimax_result_loop_max hsm'_def nmm'_def x_def)
  show ?case
  proof (cases "b \<le> max a0 hs'")
    case True
    from st(2) [OF True] have "b \<le> hs'" "hs' \<le> hsm'" by simp_all
    moreover have "hsm' \<le> fst (minimax_result_loop g True ms hsm' nmm')"
      by (rule minimax_result_loop_ge)
    moreover from Cons.prems(1) have "a0 < b" by simp
    ultimately have "window a0 b hs' (fst (minimax_result_loop g True ms hsm' nmm'))"
      by (auto simp: window_def)
    with True show ?thesis by (simp only: A M if_True fst_conv)
  next
    case False
    from st(3) [OF False] have i: "hs' \<le> a0 \<longrightarrow> hsm' \<le> hs'" "a0 < hs' \<longrightarrow> hs' = hsm'"
      by simp_all
    from False have "max a0 hs' < b" by (simp only: not_le)
    from Cons.IH [OF this i, of nm' nmm'] False show ?thesis
      by (simp only: A M if_False)
  qed
qed

lemma result_loop_window_min:
  assumes ch: "\<And>m a b. a < b \<Longrightarrow> window a b (f m a b) (g m)"
  shows "a < min b0 hs \<Longrightarrow> (b0 \<le> hs \<longrightarrow> hs \<le> hsm) \<Longrightarrow> (hs < b0 \<longrightarrow> hs = hsm) \<Longrightarrow>
         window a b0 (fst (alphabeta_result_loop f False ms hs nm a (min b0 hs)))
                     (fst (minimax_result_loop g False ms hsm nmm))"
proof (induction ms arbitrary: hs nm hsm nmm)
  case Nil
  then show ?case by (auto simp: window_def)
next
  case (Cons m ms)
  define v where "v = f m a (min b0 hs)"
  define x where "x = g m"
  define hs' where "hs' = (if v < hs then v else hs)"
  define nm' where "nm' = (if v < hs then m else nm)"
  define hsm' where "hsm' = (if x < hsm then x else hsm)"
  define nmm' where "nmm' = (if x < hsm then m else nmm)"
  have w: "window a (min b0 hs) v x"
    unfolding v_def x_def by (rule ch [OF Cons.prems(1)])
  note st = window_step_min [OF w Cons.prems hs'_def hsm'_def]
  have A: "alphabeta_result_loop f False (m # ms) hs nm a (min b0 hs) =
             (if min b0 hs' \<le> a then (hs', nm')
              else alphabeta_result_loop f False ms hs' nm' a (min b0 hs'))"
  proof -
    have "alphabeta_result_loop f False (m # ms) hs nm a (min b0 hs) =
            (if min (min b0 hs) hs' \<le> a then (hs', nm')
             else alphabeta_result_loop f False ms hs' nm' a (min (min b0 hs) hs'))"
      by (rule alphabeta_result_loop_min) (simp_all only: hs'_def nm'_def v_def)
    then show ?thesis by (simp only: st(1))
  qed
  have M: "minimax_result_loop g False (m # ms) hsm nmm = minimax_result_loop g False ms hsm' nmm'"
    by (simp add: minimax_result_loop_min hsm'_def nmm'_def x_def)
  show ?case
  proof (cases "min b0 hs' \<le> a")
    case True
    from st(2) [OF True] have "hs' \<le> a" "hsm' \<le> hs'" by simp_all
    moreover have "fst (minimax_result_loop g False ms hsm' nmm') \<le> hsm'"
      by (rule minimax_result_loop_le)
    moreover from Cons.prems(1) have "a < b0" by simp
    ultimately have "window a b0 hs' (fst (minimax_result_loop g False ms hsm' nmm'))"
      by (auto simp: window_def)
    with True show ?thesis by (simp only: A M if_True fst_conv)
  next
    case False
    from st(3) [OF False] have i: "b0 \<le> hs' \<longrightarrow> hs' \<le> hsm'" "hs' < b0 \<longrightarrow> hs' = hsm'"
      by simp_all
    from False have "a < min b0 hs'" by (simp only: not_le)
    from Cons.IH [OF this i, of nm' nmm'] False show ?thesis
      by (simp only: A M if_False)
  qed
qed

lemma result_window:
  "a < b \<Longrightarrow> window a b (fst (alphabeta_result B self game d a b mx))
                         (fst (minimax_result B self game d mx))"
proof (induction d arbitrary: game a b mx)
  case 0
  show ?case by (simp add: window_def)
next
  case (Suc d)
  let ?f = "\<lambda>move a b. fst (alphabeta_result B self (forecast_move B game move) d a b (\<not> mx))"
  let ?g = "\<lambda>move. fst (minimax_result B self (forecast_move B game move) d (\<not> mx))"
  have ch: "\<And>m a b. a < b \<Longrightarrow> window a b (?f m a b) (?g m)"
    by (rule Suc.IH)
  show ?case
  proof (cases mx)
    case True
    from result_loop_window_max [of ?f ?g a NegInf b NegInf, OF ch] Suc.prems True
    show ?thesis by simp
  next
    case False
    from result_loop_window_min [of ?f ?g a b PosInf PosInf, OF ch] Suc.prems False
    show ?thesis by simp
  qed
qed

lemma minimax_result_loop_top: "minimax_result_loop g True ms PosInf nm = (PosInf, nm)"
  by (induction ms) (simp_all add: Let_def)

lemma minimax_result_loop_bottom: "minimax_result_loop g False ms NegInf nm = (NegInf, nm)"
  by (induction ms) (simp_all add: Let_def)

lemma result_loop_root_max:
  assumes ch: "\<And>m a b. a < b \<Longrightarrow> window a b (f m a b) (g m)"
  shows "hs < PosInf \<Longrightarrow>
         alphabeta_result_loop f True ms hs nm hs PosInf = minimax_result_loop g True ms hs nm"
proof (induction ms arbitrary: hs nm)
  case Nil
  show ?case by simp
next
  case (Cons m ms)
  define v where "v = f m hs PosInf"
  define hs' where "hs' = (if hs < v then v else hs)"
  define nm' where "nm' = (if hs < v then m else nm)"
  have w: "window hs PosInf v (g m)"
    unfolding v_def by (rule ch [OF Cons.prems])
  then have e: "hs < g m \<longleftrightarrow> hs < v" "hs < v \<Longrightarrow> g m = v"
    by (auto simp: window_def less_PosInf_iff)
  have mx: "max hs hs' = hs'"
    by (auto simp: hs'_def max_def)
  have A: "alphabeta_result_loop f True (m # ms) hs nm hs PosInf =
             (if PosInf \<le> hs' then (hs', nm')
              else alphabeta_result_loop f True ms hs' nm' hs' PosInf)"
  proof -
    have "alphabeta_result_loop f True (m # ms) hs nm hs PosInf =
            (if PosInf \<le> max hs hs' then (hs', nm')
             else alphabeta_result_loop f True ms hs' nm' (max hs hs') PosInf)"
      by (rule alphabeta_result_loop_max) (simp_all only: hs'_def nm'_def v_def)
    then show ?thesis by (simp only: mx)
  qed
  have M: "minimax_result_loop g True (m # ms) hs nm = minimax_result_loop g True ms hs' nm'"
    using e by (auto simp: minimax_result_loop_max hs'_def nm'_def simp del: minimax_result_loop.simps)
  show ?case
  proof (cases "hs' = PosInf")
    case True
    then show ?thesis
      by (simp only: A M) (simp add: minimax_result_loop_top)
  next
    case False
    then have "hs' < PosInf" by (simp add: less_PosInf_iff)
    from Cons.IH [OF this, of nm'] False show ?thesis
      by (simp only: A M PosInf_greatest if_False)
  qed
qed

lemma result_loop_root_min:
  assumes ch: "\<And>m a b. a < b \<Longrightarrow> window a b (f m a b) (g m)"
  shows "NegInf < hs \<Longrightarrow>
         alphabeta_result_loop f False ms hs nm NegInf hs = minimax_result_loop g False ms hs nm"
proof (induction ms arbitrary: hs nm)
  case Nil
  show ?case by simp
next
  case (Cons m ms)
  define v where "v = f m NegInf hs"
  define hs' where "hs' = (if v < hs then v else hs)"
  define nm' where "nm' = (if v < hs then m else nm)"
  have w: "window NegInf hs v (g m)"
    unfolding v_def by (rule ch [OF Cons.prems])
  then have e: "g m < hs \<longleftrightarrow> v < hs" "v < hs \<Longrightarrow> g m = v"
    by (auto simp: window_def NegInf_less_iff)
  have mn: "min hs hs' = hs'"
    by (auto simp: hs'_def min_def)
  have A: "alphabeta_result_loop f False (m # ms) hs nm NegInf hs =
             (if hs' \<le> NegInf then (hs', nm')
              else alphabeta_result_loop f False ms hs' nm' NegInf hs')"
  proof -
    have "alphabeta_result_loop f False (m # ms) hs nm NegInf hs =
            (if min hs hs' \<le> NegInf then (hs', nm')
             else alphabeta_result_loop f False ms hs' nm' NegInf (min hs hs'))"
      by (rule alphabeta_result_loop_min) (simp_all only: hs'_def nm'_def v_def)
    then show ?thesis by (simp only: mn)
  qed
  have M: "minimax_result_loop g False (m # ms) hs nm = minimax_result_loop g False ms hs' nm'"
    using e by (auto simp: minimax_result_loop_min hs'_def nm'_def simp del: minimax_result_loop.simps)
  show ?case
  proof (cases "hs' = NegInf")
    case True
    then show ?thesis
      by (simp only: A M) (simp add: minimax_result_loop_bottom)
  next
    case False
    then have "NegInf < hs'" by (simp add: NegInf_less_iff)
    from Cons.IH [OF this, of nm'] False show ?thesis
      by (simp only: A M NegInf_least if_False)
  qed
qed

lemma result_root:
  "alphabeta_result B self game d NegInf PosInf mx = minimax_result B self game d mx"
proof (cases d)
  case 0
  then show ?thesis by simp
next
  case (Suc d')
  let ?f = "\<lambda>move a b. fst (alphabeta_result B self (forecast_move B game move) d' a b (\<not> mx))"
  let ?g = "\<lambda>move. fst (minimax_result B self (forecast_move B game move) d' (\<not> mx))"
  have ch: "\<And>m a b. a < b \<Longrightarrow> window a b (?f m a b) (?g m)"
    by (rule result_window)
  show ?thesis
  proof (cases mx)
    case True
    from result_loop_root_max [of ?f ?g NegInf, OF ch] Suc True show ?thesis
      by (simp add: less_PosInf_iff)
  next
    case False
    from result_loop_root_min [of ?f ?g PosInf, OF ch] Suc False show ?thesis
      by (simp add: NegInf_less_iff)
  qed
qed

lemma minimax_loop_result:
  assumes "\<And>m k. \<exists>mv. fst (child m k) = Inr (g m, mv)"
  shows "fst (minimax_loop child mx ms hs nm n) = Inr (minimax_result_loop g mx ms hs nm)"
proof (induction ms arbitrary: hs nm n)
  case Nil
  show ?case by simp
next
  case (Cons m ms)
  from assms [of m n] obtain mv k where "child m n = (Inr (g m, mv), k)"
    by (cases "child m n") auto
  then show ?case
    using Cons.IH by (cases mx) (simp_all add: Let_def)
qed

lemma minimax_no_abort:
  assumes "\<forall>k. \<not> time_left self k < TIMER_THRESHOLD self"
  shows "fst (minimax B self game d mx n) = Inr (minimax_result B self game d mx)"
proof (induction d arbitrary: game mx n)
  case 0
  from assms show ?case by simp
next
  case (Suc d)
  let ?child = "\<lambda>move k. minimax B self (forecast_move B game move) d (\<not> mx) k"
  let ?g = "\<lambda>move. fst (minimax_result B self (forecast_move B game move) d (\<not> mx))"
  have "\<exists>mv. fst (?child m k) = Inr (?g m, mv)" for m k
    by (simp add: Suc.IH prod_eq_iff)
  from minimax_loop_result [of ?child ?g, OF this] assms show ?case
    by simp
qed

lemma alphabeta_loop_result:
  assumes "\<And>m a b k. \<exists>mv. fst (child m a b k) = Inr (f m a b, mv)"
  shows "fst (alphabeta_loop child mx ms hs nm alpha beta n) =
           Inr (alphabeta_result_loop f mx ms hs nm alpha beta)"
proof (induction ms arbitrary: hs nm alpha beta n)
  case Nil
  show ?case by simp
next
  case (Cons m ms)
  from assms [of m alpha beta n] obtain mv k where "child m alpha beta n = (Inr (f m alpha beta, mv), k)"
    by (cases "child m alpha beta n") auto
  then show ?case
    using Cons.IH by (cases mx) (simp_all add: Let_def)
qed

lemma alphabeta_no_abort:
  assumes "\<forall>k. \<not> time_left self k < TIMER_THRESHOLD self"
  shows "fst (alphabeta B self game d alpha beta mx n) =
           Inr (alphabeta_result B self game d alpha beta mx)"
proof (induction d arbitrary: game alpha beta mx n)
  case 0
  from assms show ?case by simp
next
  case (Suc d)
  let ?child = "\<lambda>move a b k. alphabeta B self (forecast_move B game move) d a b (\<not> mx) k"
  let ?f = "\<lambda>move a b. fst (alphabeta_result B self (forecast_move B game move) d a b (\<not> mx))"
  have "\<exists>mv. fst (?child m a b k) = Inr (?f m a b, mv)" for m a b k
    by (simp add: Suc.IH prod_eq_iff)
  from alphabeta_loop_result [of ?child ?f, OF this] assms show ?case
    by simp
qed

text \<open>
  C2. When the probe never reports less than the margin, no call aborts, and
  \<open>alphabeta\<close> called with \<open>alpha = float("-inf")\<close> and \<open>beta = float("inf")\<close> returns the
  score that \<open>minimax\<close> returns for the same position and depth. The moves agree as well,
  with or without ties: at the root a later move replaces the recorded one only on a
  strictly greater (smaller) score, in both searches.
\<close>

theorem alphabeta_agrees_with_minimax:
  assumes "\<forall>k. \<not> time_left self k < TIMER_THRESHOLD self"
  shows "(\<exists>score_v move. fst (minimax B self game depth maximizing_player n) = Inr (score_v, move)) \<and>
         fst (alphabeta B self game depth NegInf PosInf maximizing_player n) =
           fst (minimax B self game depth maximizing_player n)"
  by (simp add: minimax_no_abort [OF assms] alphabeta_no_abort [OF assms] result_root prod_eq_iff)

text \<open>
  On \<open>prune_pos\<close> at depth 2 the pruned search reads the probe five times and the full
  search six times; both return the first move with the score 1.
\<close>

theorem alphabeta_agrees_with_minimax_witness:
  "(\<forall>k. \<not> time_left ((player_of (tree_board 3 3 2) ''alphabeta'' True 3)\<lparr>time_left := steady\<rparr>) k
           < TIMER_THRESHOLD ((player_of (tree_board 3 3 2) ''alphabeta'' True 3)\<lparr>time_left := steady\<rparr>)) \<and>
   alphabeta (tree_board 3 3 2) ((player_of (tree_board 3 3 2) ''alphabeta'' True 3)\<lparr>time_left := steady\<rparr>)
     prune_pos 2 NegInf PosInf True 0 = (Inr (Fin 1, (1, 2)), 5) \<and>
   minimax (tree_board 3 3 2) ((player_of (tree_board 3 3 2) ''alphabeta'' True 3)\<lparr>time_left := steady\<rparr>)
     prune_pos 2 True 0 = (Inr (Fin 1, (1, 2)), 6)"
proof -
  let ?B = "tree_board 3 3 2"
  let ?P = "(player_of ?B ''alphabeta'' True 3)\<lparr>time_left := steady\<rparr>"
  have h: "\<forall>k. \<not> time_left ?P k < TIMER_THRESHOLD ?P"
    by (simp add: player_of_def steady_def)
  have m: "minimax ?B ?P prune_pos 2 True 0 = (Inr (Fin 1, (1, 2)), 6)"
    by code_simp
  have c: "snd (alphabeta ?B ?P prune_pos 2 NegInf PosInf True 0) = 5"
    by code_simp
  from alphabeta_agrees_with_minimax [OF h, of ?B prune_pos 2 True 0] m
  have "fst (alphabeta ?B ?P prune_pos 2 NegInf PosInf True 0) = Inr (Fin 1, (1, 2))"
    by simp
  with c have "alphabeta ?B ?P prune_pos 2 NegInf PosInf True 0 = (Inr (Fin 1, (1, 2)), 5)"
    by (simp add: prod_eq_iff)
  with h m show ?thesis by blast
qed

end
